theory Spec2Isabelle
  imports Complex_Main "HOL-Library.Sublist"
begin

section \<open>The fetch server: strings and numbers of the source\<close>

text \<open>
  The development embeds \<^verbatim>\<open>src/fetch/src/index.ts\<close> (the tool \<^verbatim>\<open>call_fetch\<close>) and
  \<^verbatim>\<open>src/fetch/src/utils.ts\<close> (the fetcher \<^verbatim>\<open>fetch_url\<close>).

  A JavaScript string is a sequence of code units; it is a \<^typ>\<open>string\<close> here, one
  \<^typ>\<open>char\<close> per code unit, so that \<^verbatim>\<open>.length\<close> is \<^const>\<open>length\<close>. The numbers
  \<^verbatim>\<open>start_index\<close>, \<^verbatim>\<open>max_length\<close> and \<^verbatim>\<open>retries\<close> are \<^typ>\<open>int\<close>: the
  data model gives all three as integers, and the model covers their integer values
  (\<^verbatim>\<open>FetchSchema\<close> declares them with \<^verbatim>\<open>z.number()\<close>; a fraction is not
  modelled). The negative values, which only the schema keeps away from
  \<^verbatim>\<open>call_fetch\<close>, stay expressible.
\<close>

subsection \<open>String.prototype.includes, toLowerCase, substring\<close>

text \<open>\<^verbatim>\<open>s.includes(sub)\<close>: \<^verbatim>\<open>sub\<close> occurs in \<^verbatim>\<open>s\<close> as a contiguous run.\<close>

fun includes_str :: "string \<Rightarrow> string \<Rightarrow> bool" where
  "includes_str [] sub = (sub = [])"
| "includes_str (c # cs) sub = (prefix sub (c # cs) \<or> includes_str cs sub)"

text \<open>
  \<^verbatim>\<open>toLowerCase\<close> on the letters A to Z; every other code unit is kept. (The patterns
  searched for after lowering, \<^verbatim>\<open><html\<close> and \<^verbatim>\<open>text/html\<close>, are made of characters
  that only these letters are lowered to.)
\<close>

definition toLowerChar :: "char \<Rightarrow> char" where
  "toLowerChar c =
     (case map_of (zip ''ABCDEFGHIJKLMNOPQRSTUVWXYZ'' ''abcdefghijklmnopqrstuvwxyz'') c of
        Some l \<Rightarrow> l
      | None \<Rightarrow> c)"

definition toLowerCase :: "string \<Rightarrow> string" where
  "toLowerCase s = map toLowerChar s"

text \<open>
  \<^verbatim>\<open>s.substring(start, end)\<close>: both positions are clamped to \<open>[0, length]\<close> and swapped
  when the first is the larger one; the result runs from the smaller to the larger.
\<close>

definition substring :: "string \<Rightarrow> int \<Rightarrow> int \<Rightarrow> string" where
  "substring s start finish =
     (let len = int (length s);
          finalStart = min (max start 0) len;
          finalEnd = min (max finish 0) len;
          lo = min finalStart finalEnd;
          hi = max finalStart finalEnd
      in take (nat (hi - lo)) (drop (nat lo) s))"

subsection \<open>Numbers in template literals\<close>

definition digit_char :: "nat \<Rightarrow> char" where
  "digit_char d = ''0123456789'' ! (d mod 10)"

fun nat_to_string :: "nat \<Rightarrow> string" where
  "nat_to_string n =
     (if n < 10 then [digit_char n] else nat_to_string (n div 10) @ [digit_char (n mod 10)])"

declare nat_to_string.simps [simp del]

definition number_to_string :: "int \<Rightarrow> string" where
  "number_to_string i =
     (if i < 0 then CHR ''-'' # nat_to_string (nat (- i)) else nat_to_string (nat i))"

subsection \<open>Double precision: the quotient, the product and Math.round\<close>

text \<open>
  The percentage is computed on JavaScript numbers, in IEEE 754 double precision:
  \<^verbatim>\<open>shown / originalLength\<close> is rounded to a double, its product with 100 is rounded
  again, and \<^verbatim>\<open>Math.round\<close> is applied to that double. A finite double is a mantissa
  times a power of two, \<open>Double m e\<close> for \<open>m * 2 ^ e\<close>, with a mantissa of at most 53
  bits. Lengths and indices are integers below \<open>2 ^ 53\<close> and are doubles as they are.
  The range of the exponent is not bounded here (no overflow, no subnormal numbers): a
  quotient of two such integers and its product with 100 stay far inside it.
\<close>

datatype double = Double int int

definition double_value :: "double \<Rightarrow> rat" where
  "double_value x = (case x of Double m e \<Rightarrow> of_int m * 2 powi e)"

text \<open>The number of binary digits of a positive integer.\<close>

function bit_length :: "int \<Rightarrow> int" where
  "bit_length p = (if p \<le> 0 then 0 else bit_length (p div 2) + 1)"
  by pat_completeness auto

termination
  by (relation "measure nat") auto

declare bit_length.simps [simp del]

text \<open>
  For positive \<open>p\<close> and \<open>q\<close>, the \<open>k\<close> with \<open>2 ^ k \<le> p / q < 2 ^ (k + 1)\<close>: the
  difference of the bit lengths, or one less.
\<close>

definition floor_log2 :: "int \<Rightarrow> int \<Rightarrow> int" where
  "floor_log2 p q =
     (let k = bit_length p - bit_length q in
      if q * 2 ^ nat k \<le> p * 2 ^ nat (- k) then k else k - 1)"

text \<open>The integer nearest to \<open>p / q\<close> for positive \<open>q\<close>; of two equally near, the even one.\<close>

definition round_half_even :: "int \<Rightarrow> int \<Rightarrow> int" where
  "round_half_even p q =
     (let f = p div q; r = p mod q in
      if 2 * r < q then f
      else if q < 2 * r then f + 1
      else if even f then f else f + 1)"

text \<open>
  The double nearest to \<open>p / q\<close> (round to nearest, ties to even): the exponent is
  chosen so that the scaled quotient lies between \<open>2 ^ 52\<close> and \<open>2 ^ 53\<close>, and the scaled
  quotient is rounded to an integer mantissa.
\<close>

definition round_ratio :: "int \<Rightarrow> int \<Rightarrow> double" where
  "round_ratio p q =
     (if p = 0 then Double 0 0
      else
        let e = floor_log2 \<bar>p\<bar> q - 52 in
        Double (round_half_even (p * 2 ^ nat (- e)) (q * 2 ^ nat e)) e)"

text \<open>\<^verbatim>\<open>a / b\<close> for two integers, and \<^verbatim>\<open>x * c\<close> for a double and an integer.\<close>

definition double_div :: "int \<Rightarrow> int \<Rightarrow> double" where
  "double_div a b = round_ratio a b"

definition double_mul :: "double \<Rightarrow> int \<Rightarrow> double" where
  "double_mul x c =
     (case x of Double m e \<Rightarrow> round_ratio (m * c * 2 ^ nat e) (2 ^ nat (- e)))"

text \<open>
  \<^verbatim>\<open>Math.round\<close>: the integer nearest to the double, a half upwards, that is the floor
  of \<open>m * 2 ^ e + 1 / 2\<close>.
\<close>

definition Math_round :: "double \<Rightarrow> int" where
  "Math_round x =
     (case x of Double m e \<Rightarrow>
        (2 * (m * 2 ^ nat e) + 2 ^ nat (- e)) div (2 * 2 ^ nat (- e)))"

text \<open>\<^verbatim>\<open>Math.round(shown / originalLength * 100)\<close>\<close>

definition percentShown :: "int \<Rightarrow> int \<Rightarrow> int" where
  "percentShown shown originalLength =
     Math_round (double_mul (double_div shown originalLength) 100)"

section \<open>The paginator (call\_fetch, lines 86 to 110)\<close>

text \<open>
  The paginator is the last part of \<^verbatim>\<open>call_fetch\<close>. The source builds the string at once;
  here \<open>paginate\<close> first returns which branch was taken, with the numbers that the
  notice will show, and \<open>render_view\<close> writes the string of that branch:
  \<open>Truncated percentShown nextStart\<close> for the truncation notice and
  \<open>Showing startIndex percentShown\<close> for the notice of a continuation call.
\<close>

datatype status_suffix =
    NoSuffix
  | Truncated int int
  | Showing int int

datatype PaginatedView =
    NoMoreContent
  | Slice string status_suffix

definition paginate :: "string \<Rightarrow> int \<Rightarrow> int \<Rightarrow> PaginatedView" where
  "paginate content startIndex maxLength =
     (let originalLength = int (length content) in
      if startIndex \<ge> originalLength then NoMoreContent
      else
        let truncatedContent = substring content startIndex (startIndex + maxLength) in
        if truncatedContent = [] then NoMoreContent
        else
          let actualContentLength = int (length truncatedContent);
              remainingContent = originalLength - (startIndex + actualContentLength)
          in
            if actualContentLength = maxLength \<and> remainingContent > 0 then
              Slice truncatedContent
                (Truncated (percentShown (startIndex + actualContentLength) originalLength)
                   (startIndex + actualContentLength))
            else if startIndex > 0 then
              Slice truncatedContent
                (Showing startIndex
                   (percentShown (startIndex + actualContentLength) originalLength))
            else Slice truncatedContent NoSuffix)"

definition newline :: char where
  "newline = CHR 0x0A"

fun render_suffix :: "status_suffix \<Rightarrow> string" where
  "render_suffix NoSuffix = []"
| "render_suffix (Truncated shown nextStart) =
     [newline, newline] @ ''<e>Content truncated ('' @ number_to_string shown
       @ ''% shown). Call the fetch tool with start_index='' @ number_to_string nextStart
       @ '' to get more content.</e>''"
| "render_suffix (Showing startIndex shown) =
     [newline, newline] @ ''<e>Showing content from index '' @ number_to_string startIndex
       @ '' ('' @ number_to_string shown @ ''% of total).</e>''"

fun render_view :: "PaginatedView \<Rightarrow> string" where
  "render_view NoMoreContent = ''<e>No more content available.</e>''"
| "render_view (Slice truncatedContent notice) = truncatedContent @ render_suffix notice"

subsection \<open>A client that follows the reported start\_index\<close>

text \<open>
  The client of the round trip, written from the words of the specification: it calls the
  paginator, keeps the slice, and calls again at the \<^verbatim>\<open>start_index\<close> that the truncation
  notice reports. It stops at the sentinel, and also at a slice whose notice reports no
  next index (there is nothing to follow then). The recursion ends because a reported
  index is larger than the one asked for and smaller than the length.
\<close>

function follow_pages :: "string \<Rightarrow> int \<Rightarrow> int \<Rightarrow> string" where
  "follow_pages doc startIndex maxLength =
     (case paginate doc startIndex maxLength of
        NoMoreContent \<Rightarrow> []
      | Slice s NoSuffix \<Rightarrow> s
      | Slice s (Showing i p) \<Rightarrow> s
      | Slice s (Truncated p nextStart) \<Rightarrow> s @ follow_pages doc nextStart maxLength)"
  by pat_completeness auto

termination
proof (relation "measure (\<lambda>(doc, startIndex, maxLength). nat (int (length doc) - startIndex))")
  show "wf (measure (\<lambda>(doc, startIndex, maxLength). nat (int (length doc) - startIndex)))"
    by simp
next
  fix doc :: string and startIndex maxLength :: int and s notice p nextStart
  assume view: "paginate doc startIndex maxLength = Slice s notice"
    "notice = Truncated p nextStart"
  let ?t = "substring doc startIndex (startIndex + maxLength)"
  from view have "?t \<noteq> []"
    by (auto simp: paginate_def Let_def split: if_splits)
  moreover from view have "nextStart = startIndex + int (length ?t)
      \<and> 0 < int (length doc) - (startIndex + int (length ?t))"
    by (auto simp: paginate_def Let_def split: if_splits)
  ultimately have "startIndex < nextStart \<and> nextStart < int (length doc)" by simp
  then show "((doc, nextStart, maxLength), (doc, startIndex, maxLength))
      \<in> measure (\<lambda>(doc, startIndex, maxLength). nat (int (length doc) - startIndex))"
    by simp
qed

declare follow_pages.simps [simp del]

section \<open>The retrying fetcher (fetch\_url)\<close>

text \<open>
  The network is a parameter: it answers the attempt with a given number, for a URL, a
  user agent and a timeout. An attempt either rejects (a network failure, or the abort
  that the timeout triggers, thrown as an error whose name is \<^verbatim>\<open>AbortError\<close>), or
  responds with a status, the \<^verbatim>\<open>content-type\<close> header if there is one, and a body whose
  reading may itself reject. What the fetcher does besides returning is a list of
  events: the attempts it makes and the pauses it takes (\<^verbatim>\<open>setTimeout(resolve, 1000)\<close>);
  the lines it writes to \<^verbatim>\<open>console.error\<close> are left out.
\<close>

datatype js_error = JsError (err_name: string) (err_message: string)

datatype thrown = ThrownError js_error | ThrownOther

datatype response_body = BodyText string | BodyFails thrown

datatype attempt_outcome =
    Rejects thrown
  | Responds int "string option" response_body

type_synonym network = "string \<Rightarrow> string \<Rightarrow> int \<Rightarrow> nat \<Rightarrow> attempt_outcome"

datatype event = Attempt nat | Pause int | Extract string

definition response_ok :: "int \<Rightarrow> bool" where
  "response_ok status = (200 \<le> status \<and> status \<le> 299)"

text \<open>The body of the \<^verbatim>\<open>try\<close> block: \<open>Inl\<close> is what is thrown, \<open>Inr\<close> what is returned.\<close>

definition try_attempt :: "attempt_outcome \<Rightarrow> thrown + string \<times> string" where
  "try_attempt outcome =
     (case outcome of
        Rejects t \<Rightarrow> Inl t
      | Responds status header body \<Rightarrow>
          if \<not> response_ok status then
            Inl (ThrownError (JsError ''Error'' (''HTTP error! status: '' @ number_to_string status)))
          else
            let contentType = (case header of None \<Rightarrow> [] | Some h \<Rightarrow> h) in
            (case body of
               BodyFails t \<Rightarrow> Inl t
             | BodyText pageText \<Rightarrow> Inr (pageText, contentType)))"

text \<open>\<^verbatim>\<open>error instanceof Error ? error : new Error('Unknown error')\<close>\<close>

definition as_error :: "thrown \<Rightarrow> js_error" where
  "as_error t = (case t of ThrownError e \<Rightarrow> e | ThrownOther \<Rightarrow> JsError ''Error'' ''Unknown error'')"

definition isNetworkError :: "js_error \<Rightarrow> bool" where
  "isNetworkError lastError = (\<not> includes_str (err_message lastError) ''HTTP error'')"

definition isTimeout :: "js_error \<Rightarrow> bool" where
  "isTimeout lastError = (err_name lastError = ''AbortError'')"

definition after_events :: "event list \<Rightarrow> event list \<times> 'a \<Rightarrow> event list \<times> 'a" where
  "after_events earlier rest = (earlier @ fst rest, snd rest)"

text \<open>
  The \<^verbatim>\<open>for\<close> loop from \<open>attempt\<close> on. It ends with \<open>Inr\<close> for the \<^verbatim>\<open>return\<close> inside
  the \<^verbatim>\<open>try\<close>, and with \<open>Inl lastError\<close> when it is left by \<^verbatim>\<open>break\<close> or by its
  condition.
\<close>

function fetch_loop ::
  "network \<Rightarrow> string \<Rightarrow> string \<Rightarrow> int \<Rightarrow> int \<Rightarrow> int \<Rightarrow> js_error option
    \<Rightarrow> event list \<times> (js_error option + string \<times> string)" where
  "fetch_loop net url user_agent timeout retries attempt lastError =
     (if attempt \<le> retries then
        (case try_attempt (net url user_agent timeout (nat attempt)) of
           Inr response \<Rightarrow> ([Attempt (nat attempt)], Inr response)
         | Inl error \<Rightarrow>
             if attempt < retries \<and> (isNetworkError (as_error error) \<or> isTimeout (as_error error))
             then after_events [Attempt (nat attempt), Pause 1000]
                    (fetch_loop net url user_agent timeout retries (attempt + 1)
                       (Some (as_error error)))
             else ([Attempt (nat attempt)], Inl (Some (as_error error))))
      else ([], Inl lastError))"
  by pat_completeness auto

termination
  by (relation "measure (\<lambda>(net, url, user_agent, timeout, retries, attempt, lastError).
        nat (retries + 1 - attempt))") auto

declare fetch_loop.simps [simp del]

definition fetch_url ::
  "network \<Rightarrow> string \<Rightarrow> string \<Rightarrow> int \<Rightarrow> int \<Rightarrow> event list \<times> (string \<times> string) option" where
  "fetch_url net url user_agent timeout retries =
     (case fetch_loop net url user_agent timeout retries 0 None of
        (events, Inr response) \<Rightarrow> (events, Some response)
      | (events, Inl (Some lastError)) \<Rightarrow>
          let message = (if err_name lastError = ''AbortError'' then ''Request timed out''
                         else err_message lastError)
          in (events,
              Some (''<e>Failed to fetch: '' @ message @ '' after ''
                      @ number_to_string (retries + 1) @ '' attempts</e>'',
                    ''text/plain''))
      | (events, Inl None) \<Rightarrow>
          (events, Some (''<e>Failed to fetch: Unknown error</e>'', ''text/plain'')))"

section \<open>The tool (call\_fetch)\<close>

definition USER_AGENT :: string where
  "USER_AGENT = ''fetch-app/1.0''"

datatype content_block = TextBlock string

definition isBinary :: "string \<Rightarrow> bool" where
  "isBinary contentType =
     (contentType \<noteq> [] \<and>
       (includes_str contentType ''image/'' \<or>
        includes_str contentType ''audio/'' \<or>
        includes_str contentType ''video/'' \<or>
        includes_str contentType ''application/'' \<or>
        includes_str contentType ''font/''))"

definition isPageHtml :: "string \<Rightarrow> string \<Rightarrow> bool" where
  "isPageHtml pageRaw contentType =
     (includes_str (toLowerCase (substring pageRaw 0 100)) ''<html'' \<or>
      includes_str (toLowerCase contentType) ''text/html'' \<or>
      contentType = [])"

text \<open>
  \<^verbatim>\<open>extractContentFromHtml\<close> runs JSDOM, Readability and Turndown; it is a parameter of
  the tool, and each call of it is an event. The result of the tool is its list of
  content blocks.
\<close>

definition call_fetch ::
  "network \<Rightarrow> (string \<Rightarrow> string) \<Rightarrow> string \<Rightarrow> int \<Rightarrow> int \<Rightarrow> bool \<Rightarrow> int \<Rightarrow> int
    \<Rightarrow> event list \<times> content_block list" where
  "call_fetch net extractContentFromHtml url maxLength startIndex raw timeout retries =
     (case fetch_url net url USER_AGENT timeout retries of
        (events, None) \<Rightarrow> (events, [TextBlock ''Failed to fetch url''])
      | (events, Some (pageRaw, contentType)) \<Rightarrow>
          if pageRaw = [] then (events, [TextBlock ''Failed to get page text''])
          else if isBinary contentType \<and> \<not> raw then
            (events,
             [TextBlock (''<e>This URL contains binary content ('' @ contentType
                @ '') which cannot be displayed as text. Use raw=true to get the binary data.</e>'')])
          else
            let simplify = (isPageHtml pageRaw contentType \<and> \<not> raw);
                content = (if simplify then extractContentFromHtml pageRaw else pageRaw);
                originalLength = int (length content);
                contentSizeInfo =
                  ''Content size: '' @ number_to_string originalLength @ '' characters'';
                paginated = render_view (paginate content startIndex maxLength)
            in (events @ (if simplify then [Extract pageRaw] else []),
                [TextBlock (''Content-Type: '' @ contentType @ [newline] @ contentSizeInfo
                   @ [newline] @ ''Contents of '' @ url @ '':'' @ [newline, newline]
                   @ paginated)]))"

text \<open>
  The three classes of the content classifier, in the order in which \<^verbatim>\<open>call_fetch\<close>
  tests them: the binary test comes first, the HTML test second.
\<close>

datatype payload_class = Binary | Html | PlainText

definition classify :: "string \<Rightarrow> string \<Rightarrow> payload_class" where
  "classify pageRaw contentType =
     (if isBinary contentType then Binary
      else if isPageHtml pageRaw contentType then Html
      else PlainText)"

text \<open>
  The classifier as the specification words it, to compare with \<open>classify\<close>: here the
  content type is searched for \<^verbatim>\<open>text/html\<close> as it is, and only the body is lowered.
\<close>

definition spec_classify :: "string \<Rightarrow> string \<Rightarrow> payload_class" where
  "spec_classify bodyText contentType =
     (if includes_str contentType ''image/'' \<or> includes_str contentType ''audio/''
         \<or> includes_str contentType ''video/'' \<or> includes_str contentType ''application/''
         \<or> includes_str contentType ''font/''
      then Binary
      else if includes_str (toLowerCase (take 100 bodyText)) ''<html''
         \<or> includes_str contentType ''text/html''
         \<or> contentType = []
      then Html
      else PlainText)"

section \<open>What is observed of a run\<close>

text \<open>
  An attempt fails in a way that the fetcher retries when what it throws passes the
  fetcher's own test: the message does not contain \<^verbatim>\<open>HTTP error\<close> (a network error) or
  the name is \<^verbatim>\<open>AbortError\<close> (a timeout).
\<close>

definition retryable_failure :: "attempt_outcome \<Rightarrow> bool" where
  "retryable_failure outcome =
     (case try_attempt outcome of
        Inl error \<Rightarrow> isNetworkError (as_error error) \<or> isTimeout (as_error error)
      | Inr response \<Rightarrow> False)"

definition attempts_made :: "event list \<Rightarrow> nat" where
  "attempts_made events = length (filter (\<lambda>e. case e of Attempt k \<Rightarrow> True | _ \<Rightarrow> False) events)"




text \<open>The pages handed to \<^verbatim>\<open>extractContentFromHtml\<close> during a run.\<close>

definition extractions :: "event list \<Rightarrow> string list" where
  "extractions events = concat (map (\<lambda>e. case e of Extract html \<Rightarrow> [html] | _ \<Rightarrow> []) events)"




definition network_responds :: "int \<Rightarrow> string \<Rightarrow> string \<Rightarrow> network" where
  "network_responds status contentType pageText url user_agent timeout attempt =
     Responds status (Some contentType) (BodyText pageText)"

section \<open>Exhausted pagination\<close>

text \<open>
  C1. For every text and every maxLength, a startIndex at or beyond the length of the
  text makes the paginator return the sentinel, written
  \<^verbatim>\<open><e>No more content available.</e>\<close>, which is not the empty string.
\<close>

theorem paginate_past_end_is_sentinel:
  assumes "int (length text) \<le> startIndex"
  shows "paginate text startIndex maxLength = NoMoreContent
    \<and> render_view (paginate text startIndex maxLength) = ''<e>No more content available.</e>''
    \<and> render_view (paginate text startIndex maxLength) \<noteq> []"
  using assms by (simp add: paginate_def)

theorem paginate_past_end_is_sentinel_witness:
  "int (length ''abc'') \<le> 3
    \<and> paginate ''abc'' 3 5000 = NoMoreContent
    \<and> render_view (paginate ''abc'' 3 5000) = ''<e>No more content available.</e>''
    \<and> render_view (paginate ''abc'' 3 5000) \<noteq> []"
  using paginate_past_end_is_sentinel [of "''abc''" 3 5000] by simp

section \<open>The percentage, in doubles\<close>

subsection \<open>The rounding is to the nearest double\<close>

text \<open>
  What the definitions of the double arithmetic compute, in exact rational numbers:
  \<open>Math_round\<close> is the floor of the value plus one half; \<open>round_half_even\<close> is within
  one half of the quotient, and even on a tie; \<open>floor_log2\<close> brackets the quotient
  between two powers of two; and so \<open>round_ratio p q\<close> has a mantissa between \<open>2 ^ 52\<close>
  and \<open>2 ^ 53\<close> and lies within half a unit of its last binary digit of \<open>p / q\<close>.
\<close>

lemma two_powi_split: "(2::rat) powi e = 2 ^ nat e / 2 ^ nat (- e)"
  by (cases "0 \<le> e") (simp_all add: power_int_def field_simps)

lemma Math_round_floor: "Math_round x = \<lfloor>double_value x + 1 / 2\<rfloor>"
proof (cases x)
  case (Double m e)
  have "double_value x + 1 / 2
      = of_int (2 * (m * 2 ^ nat e) + 2 ^ nat (- e)) / of_int (2 * 2 ^ nat (- e))"
    unfolding Double double_value_def by (simp add: two_powi_split field_simps)
  then show ?thesis
    unfolding Double Math_round_def by (simp only: double.case floor_divide_of_int_eq)
qed

lemma round_half_even_near:
  assumes "0 < q"
  shows "\<bar>of_int (round_half_even p q) - (of_int p / of_int q :: rat)\<bar> \<le> 1 / 2"
proof -
  define f r where "f = p div q" and "r = p mod q"
  define d :: rat where "d = of_int r / of_int q"
  have p: "p = q * f + r" and r: "0 \<le> r" "r < q"
    using assms by (simp_all add: f_def r_def)
  have frac: "(of_int p / of_int q :: rat) = of_int f + d"
    using assms by (simp add: p d_def field_simps)
  have lo: "2 * r < q \<Longrightarrow> d < 1 / 2"
    using assms by (simp add: d_def field_simps)
  have hi: "q < 2 * r \<Longrightarrow> 1 / 2 < d"
    using assms by (simp add: d_def field_simps)
  have mid: "d = 1 / 2" if "\<not> 2 * r < q" "\<not> q < 2 * r"
  proof -
    from that have "q = 2 * r" by simp
    then show ?thesis using assms by (simp add: d_def)
  qed
  have nonneg: "0 \<le> d" using r assms by (simp add: d_def)
  have below: "d < 1" using r assms by (simp add: d_def)
  show ?thesis
  proof (cases "2 * r < q")
    case True
    then have "round_half_even p q = f"
      by (simp add: round_half_even_def Let_def f_def r_def)
    with lo [OF True] nonneg show ?thesis unfolding frac by simp
  next
    case False
    show ?thesis
    proof (cases "q < 2 * r")
      case True
      with False have "round_half_even p q = f + 1"
        by (simp add: round_half_even_def Let_def f_def r_def)
      with hi [OF True] below show ?thesis unfolding frac by simp
    next
      case tie: False
      with False have "round_half_even p q = f \<or> round_half_even p q = f + 1"
        by (simp add: round_half_even_def Let_def f_def r_def)
      with mid [OF False tie] show ?thesis unfolding frac by auto
    qed
  qed
qed

lemma round_half_even_tie:
  "2 * (p mod q) = q \<Longrightarrow> even (round_half_even p q)"
  by (simp add: round_half_even_def Let_def)

lemma round_ratio_near:
  assumes "0 < q" "round_ratio p q = Double m e"
  shows "\<bar>double_value (Double m e) - of_int p / of_int q\<bar> \<le> 2 powi e / 2"
proof (cases "p = 0")
  case True
  with assms show ?thesis by (simp add: round_ratio_def double_value_def)
next
  case False
  with assms(2) have m: "m = round_half_even (p * 2 ^ nat (- e)) (q * 2 ^ nat e)"
    by (auto simp: round_ratio_def Let_def)
  have pos: "0 < q * 2 ^ nat e" using assms(1) by simp
  have scaled: "(of_int (p * 2 ^ nat (- e)) / of_int (q * 2 ^ nat e) :: rat)
      = (of_int p / of_int q) / 2 powi e"
    by (simp add: two_powi_split)
  define x :: rat where "x = of_int m - (of_int p / of_int q) / 2 powi e"
  define c :: rat where "c = 2 powi e"
  have c: "0 < c" by (simp add: c_def)
  have "\<bar>x\<bar> \<le> 1 / 2"
    using round_half_even_near [OF pos, of "p * 2 ^ nat (- e)"] unfolding m scaled x_def .
  then have "\<bar>x\<bar> * c \<le> 1 / 2 * c"
    using c by (intro mult_right_mono) simp_all
  moreover have "\<bar>x\<bar> * c = \<bar>x * c\<bar>"
    using c by (simp add: abs_mult)
  moreover have "x * c = of_int m * 2 powi e - of_int p / of_int q"
    using c by (simp add: x_def c_def algebra_simps)
  ultimately have "\<bar>of_int m * 2 powi e - of_int p / of_int q\<bar> \<le> 1 / 2 * c"
    by (simp only:)
  then show ?thesis by (simp add: double_value_def c_def)
qed

lemma bit_length_pos: "0 < p \<Longrightarrow> 0 < bit_length p"
proof (induction p rule: bit_length.induct)
  case (1 p)
  show ?case
  proof (cases "p div 2 \<le> 0")
    case True
    then have "bit_length (p div 2) = 0" by (simp add: bit_length.simps [of "p div 2"])
    with "1.prems" show ?thesis by (simp add: bit_length.simps [of p])
  next
    case False
    with "1.IH" "1.prems" have "0 < bit_length (p div 2)" by simp
    with "1.prems" show ?thesis by (simp add: bit_length.simps [of p])
  qed
qed

lemma bit_length_bounds:
  "0 < p \<Longrightarrow> 2 ^ nat (bit_length p - 1) \<le> p \<and> p < 2 ^ nat (bit_length p)"
proof (induction p rule: bit_length.induct)
  case (1 p)
  show ?case
  proof (cases "p div 2 \<le> 0")
    case True
    with "1.prems" have "p = 1" by linarith
    then show ?thesis by (simp add: bit_length.simps)
  next
    case False
    then have half: "0 < p div 2" by simp
    with "1.IH" "1.prems" have ih: "2 ^ nat (bit_length (p div 2) - 1) \<le> p div 2"
      "p div 2 < 2 ^ nat (bit_length (p div 2))" by simp_all
    have b: "bit_length p = bit_length (p div 2) + 1"
      using "1.prems" by (simp add: bit_length.simps [of p])
    have pos: "0 < bit_length (p div 2)" using half by (rule bit_length_pos)
    then have "nat (bit_length (p div 2)) = Suc (nat (bit_length (p div 2) - 1))" by linarith
    then have low: "(2::int) ^ nat (bit_length (p div 2)) = 2 * 2 ^ nat (bit_length (p div 2) - 1)"
      by simp
    have "nat (bit_length (p div 2) + 1) = Suc (nat (bit_length (p div 2)))" using pos by linarith
    then have high: "(2::int) ^ nat (bit_length (p div 2) + 1) = 2 * 2 ^ nat (bit_length (p div 2))"
      by simp
    have "2 * (p div 2) \<le> p" "p \<le> 2 * (p div 2) + 1" by linarith+
    with ih show ?thesis unfolding b by (simp add: low high)
  qed
qed

lemma two_powi_nat: "0 \<le> k \<Longrightarrow> (2::rat) powi k = of_int (2 ^ nat k)"
  by (simp add: power_int_def)

lemma floor_log2_bounds:
  assumes "0 < p" "0 < q"
  shows "2 powi floor_log2 p q \<le> (of_int p / of_int q :: rat)
    \<and> (of_int p / of_int q :: rat) < 2 powi (floor_log2 p q + 1)"
proof -
  define bp bq where "bp = bit_length p" and "bq = bit_length q"
  have bp: "0 < bp" and bq: "0 < bq"
    using assms by (simp_all add: bp_def bq_def bit_length_pos)
  have p: "(2::rat) powi (bp - 1) \<le> of_int p" "(of_int p :: rat) < 2 powi bp"
    using bit_length_bounds [OF assms(1)] bp
    by (simp_all add: two_powi_nat bp_def [symmetric] del: of_int_power)
  have q: "(2::rat) powi (bq - 1) \<le> of_int q" "(of_int q :: rat) < 2 powi bq"
    using bit_length_bounds [OF assms(2)] bq
    by (simp_all add: two_powi_nat bq_def [symmetric] del: of_int_power)
  have qpos: "(0::rat) < of_int q" using assms by simp
  have upper: "(of_int p / of_int q :: rat) < 2 powi (bp - bq + 1)"
  proof -
    have "(of_int p :: rat) < 2 powi bp" by (rule p)
    also have "(2::rat) powi bp = 2 powi (bp - bq + 1) * 2 powi (bq - 1)"
      by (simp flip: power_int_add)
    also have "\<dots> \<le> 2 powi (bp - bq + 1) * of_int q"
      using q(1) by (intro mult_left_mono) simp_all
    finally show ?thesis using qpos by (simp add: field_simps)
  qed
  have lower: "(2::rat) powi (bp - bq - 1) < of_int p / of_int q"
  proof -
    have "(2::rat) powi (bp - bq - 1) * of_int q < 2 powi (bp - bq - 1) * 2 powi bq"
      using q(2) by (intro mult_strict_left_mono) simp_all
    also have "\<dots> = 2 powi (bp - 1)" by (simp flip: power_int_add)
    also have "\<dots> \<le> of_int p" by (rule p)
    finally show ?thesis using qpos by (simp add: field_simps)
  qed
  have test: "q * 2 ^ nat (bp - bq) \<le> p * 2 ^ nat (- (bp - bq))
      \<longleftrightarrow> (2::rat) powi (bp - bq) \<le> of_int p / of_int q"
  proof -
    have "(2::rat) powi (bp - bq) \<le> of_int p / of_int q
        \<longleftrightarrow> (of_int (q * 2 ^ nat (bp - bq)) :: rat) \<le> of_int (p * 2 ^ nat (- (bp - bq)))"
      using qpos by (simp add: two_powi_split field_simps)
    then show ?thesis by (simp only: of_int_le_iff)
  qed
  show ?thesis
  proof (cases "q * 2 ^ nat (bp - bq) \<le> p * 2 ^ nat (- (bp - bq))")
    case True
    then have "floor_log2 p q = bp - bq"
      by (simp add: floor_log2_def Let_def bp_def bq_def)
    with True test upper show ?thesis by simp
  next
    case False
    then have k: "floor_log2 p q = bp - bq - 1"
      by (simp add: floor_log2_def Let_def bp_def bq_def)
    from False test have "(of_int p / of_int q :: rat) < 2 powi (bp - bq)" by simp
    with lower show ?thesis unfolding k by simp
  qed
qed

lemma round_ratio_mantissa:
  assumes "0 < p" "0 < q" "round_ratio p q = Double m e"
  shows "2 ^ 52 \<le> m \<and> m \<le> 2 ^ 53"
proof -
  from assms have e: "e = floor_log2 p q - 52"
    by (auto simp: round_ratio_def Let_def)
  define x :: rat where "x = of_int p / of_int q / 2 powi e"
  have near: "\<bar>of_int m * 2 powi e - of_int p / of_int q\<bar> \<le> (2 powi e / 2 :: rat)"
    using round_ratio_near [OF assms(2,3)] by (simp add: double_value_def)
  have c: "(0::rat) < 2 powi e" by simp
  have "of_int m * 2 powi e - of_int p / of_int q = (of_int m - x) * 2 powi e"
    by (simp add: x_def algebra_simps)
  with near have "\<bar>of_int m - x\<bar> * 2 powi e \<le> 1 / 2 * 2 powi e"
    using c by (simp add: abs_mult)
  then have close: "\<bar>of_int m - x\<bar> \<le> 1 / 2"
    using c by (simp only: mult_le_cancel_right_pos)
  have k: "floor_log2 p q = e + 52" using e by simp
  from floor_log2_bounds [OF assms(1,2)]
  have "2 powi (e + 52) \<le> (of_int p / of_int q :: rat)"
    "(of_int p / of_int q :: rat) < 2 powi (e + 53)"
    unfolding k by (simp_all add: add.assoc)
  then have "2 powi 52 * 2 powi e \<le> (of_int p / of_int q :: rat)"
    "(of_int p / of_int q :: rat) < 2 powi 53 * 2 powi e"
    by (simp_all add: power_int_add add.commute)
  then have x: "2 powi 52 \<le> x" "x < 2 powi 53"
    by (simp_all only: x_def pos_le_divide_eq [OF c] pos_divide_less_eq [OF c])
  from close have m: "x - 1 / 2 \<le> of_int m" "of_int m \<le> x + 1 / 2" by linarith+
  from x have "(4503599627370496 :: rat) \<le> x" "x < (9007199254740992 :: rat)" by simp_all
  with m have "(of_int 9007199254740991 :: rat) \<le> of_int (2 * m)"
    "(of_int (2 * m) :: rat) < of_int 18014398509481985"
    by simp_all
  then have "9007199254740991 \<le> 2 * m" "2 * m < 18014398509481985"
    by (simp_all only: of_int_le_iff of_int_less_iff)
  then show ?thesis by simp
qed

subsection \<open>Percentages\<close>

text \<open>
  The percentage at some quotients. Of 23 out of 40 the exact percentage is 57.5, but the
  double nearest to 0.575 times 100 is rounded to 57.49999999999999, and the notice says
  57; likewise 14 for 29 out of 200.
\<close>

lemma percentShown_examples:
  "percentShown 4 10 = 40"
  "percentShown 1 3 = 33"
  "percentShown 2 3 = 67"
  "percentShown 1 8 = 13"
  "percentShown 23 40 = 57"
  "percentShown 29 200 = 14"
  "percentShown 12 10 = 120"
  by code_simp+




section \<open>Slices, notices and the round trip\<close>

subsection \<open>The paginator inside the text\<close>

lemma substring_in_range:
  assumes "0 \<le> i" "i < int (length s)" "0 < m"
  shows "substring s i (i + m) = take (nat m) (drop (nat i) s)"
proof -
  have "take (nat (min (i + m) (int (length s)) - i)) (drop (nat i) s)
      = take (nat m) (drop (nat i) s)"
    using assms by (cases "i + m \<le> int (length s)") (simp_all add: min_def)
  moreover have "substring s i (i + m)
      = take (nat (min (i + m) (int (length s)) - i)) (drop (nat i) s)"
    using assms by (simp add: substring_def Let_def min_def max_def)
  ultimately show ?thesis by simp
qed

text \<open>
  With a start inside the text and a positive maximum, the slice is never empty, and the
  three notices are told apart by \<open>startIndex + maxLength < length\<close> and
  \<open>0 < startIndex\<close> alone.
\<close>

lemma paginate_in_range:
  assumes "0 \<le> i" "i < int (length doc)" "0 < m"
  shows "paginate doc i m =
    Slice (take (nat m) (drop (nat i) doc))
      (if i + m < int (length doc)
       then Truncated (percentShown (i + m) (int (length doc))) (i + m)
       else if 0 < i then Showing i (percentShown (int (length doc)) (int (length doc)))
       else NoSuffix)"
proof -
  let ?s = "take (nat m) (drop (nat i) doc)"
  have sub: "substring doc i (i + m) = ?s" using assms by (rule substring_in_range)
  have "length ?s = min (nat m) (length doc - nat i)" by simp
  then have len: "int (length ?s) = min m (int (length doc) - i)" using assms by linarith
  have ne: "?s \<noteq> []" using assms by simp
  show ?thesis
  proof (cases "i + m < int (length doc)")
    case True
    then show ?thesis using assms sub ne len by (simp add: paginate_def Let_def min_def)
  next
    case False
    then have "int (length ?s) = int (length doc) - i" using len by (simp add: min_def)
    then show ?thesis using False assms sub ne by (simp add: paginate_def Let_def)
  qed
qed

lemma take_drop_nth:
  "take m (drop i xs) = map (\<lambda>k. xs ! k) [i ..< min (i + m) (length xs)]"
proof (rule nth_equalityI)
  show "length (take m (drop i xs)) = length (map (\<lambda>k. xs ! k) [i ..< min (i + m) (length xs)])"
    by (auto simp: min_def)
next
  fix k assume "k < length (take m (drop i xs))"
  then have k: "k < m" "i + k < length xs" by auto
  then have "[i ..< min (i + m) (length xs)] ! k = i + k" by simp
  with k show "take m (drop i xs) ! k = map (\<lambda>k. xs ! k) [i ..< min (i + m) (length xs)] ! k"
    by simp
qed

subsection \<open>The round trip\<close>

lemma follow_pages_drop:
  "0 < maxLength \<Longrightarrow> 0 \<le> startIndex \<Longrightarrow>
     follow_pages doc startIndex maxLength = drop (nat startIndex) doc"
proof (induction doc startIndex maxLength rule: follow_pages.induct)
  case (1 doc startIndex maxLength)
  show ?case
  proof (cases "startIndex < int (length doc)")
    case False
    then have "paginate doc startIndex maxLength = NoMoreContent"
      by (simp add: paginate_def)
    with False show ?thesis by (simp add: follow_pages.simps [of doc startIndex maxLength])
  next
    case True
    note pg = paginate_in_range [OF "1.prems"(2) True "1.prems"(1)]
    show ?thesis
    proof (cases "startIndex + maxLength < int (length doc)")
      case False
      then have "take (nat maxLength) (drop (nat startIndex) doc) = drop (nat startIndex) doc"
        using "1.prems" by simp
      with False pg show ?thesis
        by (simp add: follow_pages.simps [of doc startIndex maxLength])
    next
      case less: True
      from less pg have eq: "paginate doc startIndex maxLength =
          Slice (take (nat maxLength) (drop (nat startIndex) doc))
            (Truncated (percentShown (startIndex + maxLength) (int (length doc)))
               (startIndex + maxLength))"
        by simp
      have "follow_pages doc (startIndex + maxLength) maxLength
          = drop (nat (startIndex + maxLength)) doc"
        using "1.IH" [OF eq refl] "1.prems" by simp
      moreover have n: "nat (startIndex + maxLength) = nat maxLength + nat startIndex"
        using "1.prems" by linarith
      have "take (nat maxLength) (drop (nat startIndex) doc)
          @ drop (nat (startIndex + maxLength)) doc = drop (nat startIndex) doc"
        unfolding n drop_drop [symmetric] by (rule append_take_drop_id)
      ultimately show ?thesis using eq
        by (simp only: follow_pages.simps [of doc startIndex maxLength]
              PaginatedView.case status_suffix.case)
    qed
  qed
qed

text \<open>
  C2. For every text and every maxLength above 0, the slices collected by following the
  reported \<^verbatim>\<open>start_index\<close> from 0 concatenate to the text itself; and every call
  with a start inside the text returns the characters of the text at the positions
  from startIndex up to startIndex + maxLength, clamped to the length, unchanged.
\<close>

theorem pagination_round_trip:
  assumes "0 < maxLength"
  shows "follow_pages doc 0 maxLength = doc
    \<and> (\<forall>startIndex. 0 \<le> startIndex \<and> startIndex < int (length doc) \<longrightarrow>
          (\<exists>notice. paginate doc startIndex maxLength =
             Slice (map (\<lambda>k. doc ! k)
                      [nat startIndex ..< min (nat startIndex + nat maxLength) (length doc)])
               notice))"
proof
  show "follow_pages doc 0 maxLength = doc"
    using follow_pages_drop [OF assms, of 0 doc] by simp
next
  show "\<forall>startIndex. 0 \<le> startIndex \<and> startIndex < int (length doc) \<longrightarrow>
          (\<exists>notice. paginate doc startIndex maxLength =
             Slice (map (\<lambda>k. doc ! k)
                      [nat startIndex ..< min (nat startIndex + nat maxLength) (length doc)])
               notice)"
    using assms by (auto simp: paginate_in_range take_drop_nth)
qed

theorem pagination_round_trip_witness:
  "(0::int) < 4
    \<and> follow_pages ''0123456789'' 0 4 = ''0123456789''
    \<and> (0::int) \<le> 8 \<and> 8 < int (length ''0123456789'')
    \<and> (\<exists>notice. paginate ''0123456789'' 8 4 = Slice ''89'' notice)"
proof -
  have pos: "(0::int) < 4" by simp
  note round_trip = pagination_round_trip [OF pos, of "''0123456789''"]
  from round_trip have whole: "follow_pages ''0123456789'' 0 4 = ''0123456789''"
    by (rule conjunct1)
  from round_trip have "(0::int) \<le> 8 \<and> 8 < int (length ''0123456789'') \<longrightarrow>
      (\<exists>notice. paginate ''0123456789'' 8 4 =
        Slice (map (\<lambda>k. ''0123456789'' ! k)
                 [nat 8 ..< min (nat 8 + nat 4) (length ''0123456789'')]) notice)"
    by blast
  then have last_slice: "\<exists>notice. paginate ''0123456789'' 8 4 = Slice ''89'' notice"
    by (simp add: upt_rec)
  from whole last_slice show ?thesis by simp
qed

subsection \<open>Which notice follows the slice\<close>






section \<open>How often the fetcher tries\<close>






text \<open>
  What counts: a thrown value that is no error, an abort, and any error whose message does
  not contain \<^verbatim>\<open>HTTP error\<close> are retried; a response with a status outside 200 to 299
  is not.
\<close>

lemma retryable_failure_cases:
  "retryable_failure (Rejects ThrownOther)"
  "retryable_failure (Rejects (ThrownError (JsError ''AbortError'' message)))"
  "\<not> includes_str message ''HTTP error'' \<Longrightarrow>
     retryable_failure (Rejects (ThrownError (JsError name message)))"
  "\<not> response_ok status \<Longrightarrow> \<not> retryable_failure (Responds status header body)"
  by (simp_all add: retryable_failure_def try_attempt_def as_error_def isNetworkError_def
        isTimeout_def)


lemma digits_404: "number_to_string 404 = ''404''" and digits_3: "number_to_string 3 = ''3''"
  by (simp_all add: number_to_string_def nat_to_string.simps digit_char_def)





section \<open>The failure body\<close>

text \<open>
  C5. The failure body renders a timeout as "Request timed out" and any other failure by
  its message, and its content type is \<^verbatim>\<open>text/plain\<close>; but the number of attempts it
  states is always \<open>retries + 1\<close>. A 404 on the first attempt, with retries = 2, ends
  the loop after one attempt, and the body reads "after 3 attempts".
\<close>

theorem http_error_reports_unmade_attempts:
  "fetch_url (network_responds 404 ''text/html'' ''Not Found'')
      ''http://example.com/missing'' USER_AGENT 10000 2
    = ([Attempt 0],
       Some (''<e>Failed to fetch: HTTP error! status: 404 after 3 attempts</e>'', ''text/plain''))
   \<and> attempts_made (fst (fetch_url (network_responds 404 ''text/html'' ''Not Found'')
        ''http://example.com/missing'' USER_AGENT 10000 2)) = 1"
proof -
  have "fetch_loop (network_responds 404 ''text/html'' ''Not Found'')
      ''http://example.com/missing'' USER_AGENT 10000 2 0 None
    = ([Attempt 0], Inl (Some (JsError ''Error'' ''HTTP error! status: 404'')))"
    by (simp add: fetch_loop.simps [of _ _ _ _ 2 0] network_responds_def try_attempt_def
          response_ok_def as_error_def isNetworkError_def isTimeout_def digits_404)
  then have "fetch_url (network_responds 404 ''text/html'' ''Not Found'')
      ''http://example.com/missing'' USER_AGENT 10000 2
    = ([Attempt 0],
       Some (''<e>Failed to fetch: HTTP error! status: 404 after 3 attempts</e>'', ''text/plain''))"
    by (simp add: fetch_url_def digits_3)
  then show ?thesis by (simp add: attempts_made_def)
qed

section \<open>The content classifier\<close>

text \<open>\<open>includes_str\<close> is the search for a contiguous occurrence.\<close>

lemma includes_str_iff: "includes_str s sub \<longleftrightarrow> (\<exists>before rest. s = before @ sub @ rest)"
proof (induction s)
  case Nil
  then show ?case by simp
next
  case (Cons c cs)
  show ?case
  proof
    assume "includes_str (c # cs) sub"
    then consider "prefix sub (c # cs)" | "includes_str cs sub" by auto
    then show "\<exists>before rest. c # cs = before @ sub @ rest"
    proof cases
      case 1
      then obtain rest where "c # cs = sub @ rest" by (auto simp: prefix_def)
      then have "c # cs = [] @ sub @ rest" by simp
      then show ?thesis by blast
    next
      case 2
      with Cons.IH obtain before rest where "cs = before @ sub @ rest" by blast
      then have "c # cs = (c # before) @ sub @ rest" by simp
      then show ?thesis by blast
    qed
  next
    assume "\<exists>before rest. c # cs = before @ sub @ rest"
    then obtain before rest where eq: "c # cs = before @ sub @ rest" by blast
    show "includes_str (c # cs) sub"
    proof (cases before)
      case Nil
      with eq have "prefix sub (c # cs)" by (simp add: prefix_def)
      then show ?thesis by simp
    next
      case (Cons b bs)
      with eq have "cs = bs @ sub @ rest" by simp
      with Cons.IH have "includes_str cs sub" by blast
      then show ?thesis by simp
    qed
  qed
qed

lemma substring_first_100: "substring s 0 100 = take 100 s"
  by (simp add: substring_def Let_def min_def)

text \<open>
  A content type written in capitals: the source lowers it before the search, so the
  payload is Html; by the words of the specification it is PlainText.
\<close>

theorem classify_content_type_case_counterexample:
  "classify ''hello'' ''TEXT/HTML'' = Html \<and> spec_classify ''hello'' ''TEXT/HTML'' = PlainText"
  by (simp add: classify_def spec_classify_def isBinary_def isPageHtml_def substring_first_100
        toLowerCase_def toLowerChar_def)

text \<open>
  C6, amended. The payload is Binary exactly when the content type contains one of
  \<^verbatim>\<open>image/\<close>, \<^verbatim>\<open>audio/\<close>, \<^verbatim>\<open>video/\<close>, \<^verbatim>\<open>application/\<close>, \<^verbatim>\<open>font/\<close>; otherwise it is
  Html exactly when the first 100 characters of the body, lowered, contain \<^verbatim>\<open><html\<close>,
  or the content type, lowered as well, contains \<^verbatim>\<open>text/html\<close>, or the content type is
  empty; otherwise it is PlainText. \<^verbatim>\<open>application/pdf\<close> is Binary, a body starting
  with \<^verbatim>\<open><!DOCTYPE html><html>\<close> with content type \<^verbatim>\<open>text/plain\<close> is Html, and an empty
  content type is Html.
\<close>

theorem classify_rule:
  "(classify pageRaw contentType = Binary \<longleftrightarrow>
      includes_str contentType ''image/'' \<or> includes_str contentType ''audio/''
      \<or> includes_str contentType ''video/'' \<or> includes_str contentType ''application/''
      \<or> includes_str contentType ''font/'')
   \<and> (classify pageRaw contentType = Html \<longleftrightarrow>
      classify pageRaw contentType \<noteq> Binary
      \<and> (includes_str (toLowerCase (take 100 pageRaw)) ''<html''
         \<or> includes_str (toLowerCase contentType) ''text/html''
         \<or> contentType = []))
   \<and> (classify pageRaw contentType = PlainText \<longleftrightarrow>
      classify pageRaw contentType \<noteq> Binary \<and> classify pageRaw contentType \<noteq> Html)
   \<and> classify pageRaw ''application/pdf'' = Binary
   \<and> classify (''<!DOCTYPE html><html>'' @ rest) ''text/plain'' = Html
   \<and> classify pageRaw [] = Html"
proof -
  have binary: "isBinary contentType \<longleftrightarrow>
      includes_str contentType ''image/'' \<or> includes_str contentType ''audio/''
      \<or> includes_str contentType ''video/'' \<or> includes_str contentType ''application/''
      \<or> includes_str contentType ''font/''"
    by (cases contentType) (simp_all add: isBinary_def)
  have pdf: "classify pageRaw ''application/pdf'' = Binary"
    by (simp add: classify_def isBinary_def)
  have doctype: "classify (''<!DOCTYPE html><html>'' @ rest) ''text/plain'' = Html"
    by (simp add: classify_def isBinary_def isPageHtml_def substring_first_100
          toLowerCase_def toLowerChar_def)
  have untyped: "classify pageRaw [] = Html"
    by (simp add: classify_def isBinary_def isPageHtml_def)
  show ?thesis
    unfolding pdf doctype untyped
    by (auto simp: classify_def binary isPageHtml_def substring_first_100)
qed

section \<open>What the tool returns\<close>

lemma extractions_append [simp]: "extractions (xs @ ys) = extractions xs @ extractions ys"
  by (simp add: extractions_def)

lemma fetch_loop_no_extraction:
  "extractions (fst (fetch_loop net url ua timeout retries attempt lastError)) = []"
proof (induction net url ua timeout retries attempt lastError rule: fetch_loop.induct)
  case (1 net url ua timeout retries attempt lastError)
  show ?case
  proof (cases "attempt \<le> retries")
    case False
    then show ?thesis
      by (simp add: fetch_loop.simps [of net url ua timeout retries attempt] extractions_def)
  next
    case True
    show ?thesis
    proof (cases "try_attempt (net url ua timeout (nat attempt))")
      case (Inr response)
      with True show ?thesis
        by (simp add: fetch_loop.simps [of net url ua timeout retries attempt] extractions_def)
    next
      case (Inl error)
      show ?thesis
      proof (cases "attempt < retries \<and> (isNetworkError (as_error error) \<or> isTimeout (as_error error))")
        case again: True
        from "1.IH" [OF True Inl again]
        have "extractions (fst (fetch_loop net url ua timeout retries (attempt + 1)
                (Some (as_error error)))) = []" .
        with True Inl again show ?thesis
          by (simp add: fetch_loop.simps [of net url ua timeout retries attempt] after_events_def
                extractions_def)
      next
        case False
        then have "fetch_loop net url ua timeout retries attempt lastError
            = ([Attempt (nat attempt)], Inl (Some (as_error error)))"
          using True Inl
          by (simp only: fetch_loop.simps [of net url ua timeout retries attempt] if_True if_False
                sum.case)
        then show ?thesis by (simp add: extractions_def)
      qed
    qed
  qed
qed

lemma fetch_url_events:
  "fst (fetch_url net url ua timeout retries) = fst (fetch_loop net url ua timeout retries 0 None)"
  by (simp add: fetch_url_def Let_def split: prod.splits sum.splits option.splits)

lemma fetch_url_no_extraction: "extractions (fst (fetch_url net url ua timeout retries)) = []"
  by (simp add: fetch_url_events fetch_loop_no_extraction)

lemma fetch_url_returns_pair:
  "\<exists>pageRaw contentType. snd (fetch_url net url ua timeout retries) = Some (pageRaw, contentType)"
  by (simp add: fetch_url_def Let_def split: prod.splits sum.splits option.splits)

lemma fetch_url_responds:
  assumes "0 \<le> retries" "response_ok status"
  shows "fetch_url (network_responds status contentType pageText) url ua timeout retries
    = ([Attempt 0], Some (pageText, contentType))"
  using assms
  by (simp add: fetch_url_def fetch_loop.simps [of _ url ua timeout retries 0]
        network_responds_def try_attempt_def)

lemma digits_10: "number_to_string 10 = ''10''" and digits_40: "number_to_string 40 = ''40''"
  and digits_4: "number_to_string 4 = ''4''"
  by (simp_all add: number_to_string_def nat_to_string.simps digit_char_def)

subsection \<open>An empty body\<close>

text \<open>
  C9. Whenever the fetch succeeds with an empty body text, the tool returns exactly the
  text "Failed to get page text", for every startIndex, maxLength, raw flag and content
  type: neither the sentinel nor the envelope. (A failure body of the fetcher is never
  empty, so an empty body is the body of a 2xx response.)
\<close>

theorem empty_body_reports_failure:
  assumes "snd (fetch_url net url USER_AGENT timeout retries) = Some ([], contentType)"
  shows "snd (call_fetch net extractContentFromHtml url maxLength startIndex raw timeout retries)
      = [TextBlock ''Failed to get page text'']"
proof -
  obtain events where "fetch_url net url USER_AGENT timeout retries = (events, Some ([], contentType))"
    using assms by (cases "fetch_url net url USER_AGENT timeout retries") simp
  then show ?thesis by (simp add: call_fetch_def)
qed

theorem empty_body_reports_failure_witness:
  "snd (fetch_url (network_responds 200 ''text/html'' []) ''http://example.com/'' USER_AGENT 10000 2)
      = Some ([], ''text/html'')
   \<and> snd (call_fetch (network_responds 200 ''text/html'' []) (\<lambda>html. html)
            ''http://example.com/'' 5000 0 False 10000 2)
       = [TextBlock ''Failed to get page text'']"
proof -
  have fetched: "snd (fetch_url (network_responds 200 ''text/html'' []) ''http://example.com/''
      USER_AGENT 10000 2) = Some ([], ''text/html'')"
    by (simp add: fetch_url_responds response_ok_def)
  from empty_body_reports_failure [OF fetched, of "\<lambda>html. html" 5000 0 False] fetched
  show ?thesis by simp
qed

subsection \<open>A binary payload\<close>

text \<open>
  An empty body with a binary content type: the test for the empty body comes first, and
  the result is not the refusal.
\<close>

theorem empty_binary_body_counterexample:
  "classify [] ''image/png'' = Binary
   \<and> snd (call_fetch (network_responds 200 ''image/png'' []) (\<lambda>html. html)
            ''http://example.com/pixel.png'' 5000 0 False 10000 2)
       = [TextBlock ''Failed to get page text'']"
  by (simp add: classify_def isBinary_def call_fetch_def fetch_url_responds response_ok_def)

text \<open>
  C7, amended. For every call where the fetched body is not empty, the payload is
  classified Binary and raw is false, the tool returns the refusal, which names the
  content type and tells the caller to pass \<^verbatim>\<open>raw=true\<close>, and
  \<^verbatim>\<open>extractContentFromHtml\<close> is not called.
\<close>

theorem binary_payload_is_refused:
  assumes "snd (fetch_url net url USER_AGENT timeout retries) = Some (pageRaw, contentType)"
    and "pageRaw \<noteq> []"
    and "classify pageRaw contentType = Binary"
  shows "snd (call_fetch net extractContentFromHtml url maxLength startIndex False timeout retries)
      = [TextBlock (''<e>This URL contains binary content ('' @ contentType
           @ '') which cannot be displayed as text. Use raw=true to get the binary data.</e>'')]
    \<and> extractions
        (fst (call_fetch net extractContentFromHtml url maxLength startIndex False timeout retries))
      = []"
proof -
  from assms(3) have binary: "isBinary contentType"
    by (simp add: classify_def split: if_splits)
  obtain events where fetched:
    "fetch_url net url USER_AGENT timeout retries = (events, Some (pageRaw, contentType))"
    using assms(1) by (cases "fetch_url net url USER_AGENT timeout retries") simp
  then have "extractions events = []"
    using fetch_url_no_extraction [of net url USER_AGENT timeout retries] by simp
  with fetched binary assms(2) show ?thesis
    by (simp add: call_fetch_def)
qed

theorem binary_payload_is_refused_witness:
  "snd (fetch_url (network_responds 200 ''image/png'' ''PNG'') ''http://example.com/logo.png''
          USER_AGENT 10000 2) = Some (''PNG'', ''image/png'')
   \<and> ''PNG'' \<noteq> []
   \<and> classify ''PNG'' ''image/png'' = Binary
   \<and> snd (call_fetch (network_responds 200 ''image/png'' ''PNG'') (\<lambda>html. html)
            ''http://example.com/logo.png'' 5000 0 False 10000 2)
       = [TextBlock ''<e>This URL contains binary content (image/png) which cannot be displayed as text. Use raw=true to get the binary data.</e>'']
   \<and> extractions (fst (call_fetch (network_responds 200 ''image/png'' ''PNG'') (\<lambda>html. html)
            ''http://example.com/logo.png'' 5000 0 False 10000 2)) = []"
proof -
  have fetched: "snd (fetch_url (network_responds 200 ''image/png'' ''PNG'')
      ''http://example.com/logo.png'' USER_AGENT 10000 2) = Some (''PNG'', ''image/png'')"
    by (simp add: fetch_url_responds response_ok_def)
  have nonempty: "''PNG'' \<noteq> []" by simp
  have binary: "classify ''PNG'' ''image/png'' = Binary"
    by (simp add: classify_def isBinary_def)
  from binary_payload_is_refused [OF fetched nonempty binary, of "\<lambda>html. html" 5000 0]
    fetched binary
  show ?thesis by simp
qed

subsection \<open>The envelope\<close>

text \<open>The refusal is the whole text of the result: no envelope is written around it.\<close>

theorem refusal_has_no_envelope_counterexample:
  "snd (call_fetch (network_responds 200 ''image/png'' ''PNG'') (\<lambda>html. html)
          ''http://example.com/logo.png'' 5000 0 False 10000 2)
     = [TextBlock ''<e>This URL contains binary content (image/png) which cannot be displayed as text. Use raw=true to get the binary data.</e>'']
   \<and> \<not> prefix ''Content-Type: ''
        ''<e>This URL contains binary content (image/png) which cannot be displayed as text. Use raw=true to get the binary data.</e>''"
  by (simp add: call_fetch_def fetch_url_responds response_ok_def isBinary_def)

text \<open>
  C8, amended. Every result of the tool is a single text block. For an empty body the
  text is "Failed to get page text"; for a binary content type without raw it is the
  refusal alone, wrapped in \<^verbatim>\<open><e>...</e>\<close>; in every other case it is
  \<^verbatim>\<open>Content-Type: <contentType>\<close>, newline, \<^verbatim>\<open>Content size: <originalLength> characters\<close>,
  newline, \<^verbatim>\<open>Contents of <url>:\<close>, a blank line, then the paginated content, where the
  sentinel and the notice after a slice are wrapped in \<^verbatim>\<open><e>...</e>\<close>. (The fetcher
  always returns a pair, so "Failed to fetch url" is never returned.)
\<close>

theorem call_fetch_result_shape:
  "\<exists>pageRaw contentType.
     snd (fetch_url net url USER_AGENT timeout retries) = Some (pageRaw, contentType)
     \<and> snd (call_fetch net extractContentFromHtml url maxLength startIndex raw timeout retries) =
        [TextBlock
          (if pageRaw = [] then ''Failed to get page text''
           else if isBinary contentType \<and> \<not> raw then
             ''<e>This URL contains binary content ('' @ contentType
               @ '') which cannot be displayed as text. Use raw=true to get the binary data.</e>''
           else
             let content = (if isPageHtml pageRaw contentType \<and> \<not> raw
                            then extractContentFromHtml pageRaw else pageRaw)
             in ''Content-Type: '' @ contentType @ [newline]
                  @ ''Content size: '' @ number_to_string (int (length content)) @ '' characters''
                  @ [newline] @ ''Contents of '' @ url @ '':'' @ [newline, newline]
                  @ render_view (paginate content startIndex maxLength))]
     \<and> render_view NoMoreContent = ''<e>No more content available.</e>''
     \<and> (\<forall>slice notice. \<exists>inner.
           render_view (Slice slice notice) = slice
           \<or> render_view (Slice slice notice) = slice @ [newline, newline] @ ''<e>'' @ inner @ ''</e>'')"
proof -
  obtain events pageRaw contentType where fetched:
    "fetch_url net url USER_AGENT timeout retries = (events, Some (pageRaw, contentType))"
    using fetch_url_returns_pair [of net url USER_AGENT timeout retries]
    by (cases "fetch_url net url USER_AGENT timeout retries") auto
  have shape: "snd (call_fetch net extractContentFromHtml url maxLength startIndex raw timeout retries) =
        [TextBlock
          (if pageRaw = [] then ''Failed to get page text''
           else if isBinary contentType \<and> \<not> raw then
             ''<e>This URL contains binary content ('' @ contentType
               @ '') which cannot be displayed as text. Use raw=true to get the binary data.</e>''
           else
             let content = (if isPageHtml pageRaw contentType \<and> \<not> raw
                            then extractContentFromHtml pageRaw else pageRaw)
             in ''Content-Type: '' @ contentType @ [newline]
                  @ ''Content size: '' @ number_to_string (int (length content)) @ '' characters''
                  @ [newline] @ ''Contents of '' @ url @ '':'' @ [newline, newline]
                  @ render_view (paginate content startIndex maxLength))]"
    using fetched by (simp add: call_fetch_def Let_def)
  have wrapped: "\<exists>inner. render_view (Slice slice notice) = slice
      \<or> render_view (Slice slice notice) = slice @ [newline, newline] @ ''<e>'' @ inner @ ''</e>''"
    for slice notice
  proof (cases notice)
    case NoSuffix
    then show ?thesis by simp
  next
    case (Truncated shown nextStart)
    have "render_view (Slice slice notice) = slice @ [newline, newline] @ ''<e>''
        @ (''Content truncated ('' @ number_to_string shown
            @ ''% shown). Call the fetch tool with start_index='' @ number_to_string nextStart
            @ '' to get more content.'') @ ''</e>''"
      using Truncated by simp
    then show ?thesis by blast
  next
    case (Showing i shown)
    have "render_view (Slice slice notice) = slice @ [newline, newline] @ ''<e>''
        @ (''Showing content from index '' @ number_to_string i
            @ '' ('' @ number_to_string shown @ ''% of total).'') @ ''</e>''"
      using Showing by simp
    then show ?thesis by blast
  qed
  from fetched shape wrapped show ?thesis by simp
qed

theorem call_fetch_result_shape_witness:
  "snd (call_fetch (network_responds 200 ''text/plain'' ''0123456789'') (\<lambda>html. html)
          ''http://example.com/'' 4 0 False 10000 2)
     = [TextBlock (''Content-Type: text/plain'' @ [newline] @ ''Content size: 10 characters''
          @ [newline] @ ''Contents of http://example.com/:'' @ [newline, newline] @ ''0123''
          @ [newline, newline]
          @ ''<e>Content truncated (40% shown). Call the fetch tool with start_index=4 to get more content.</e>'')]"
proof -
  have fetched: "snd (fetch_url (network_responds 200 ''text/plain'' ''0123456789'')
      ''http://example.com/'' USER_AGENT 10000 2) = Some (''0123456789'', ''text/plain'')"
    by (simp add: fetch_url_responds response_ok_def)
  have plain: "\<not> isBinary ''text/plain''" "\<not> isPageHtml ''0123456789'' ''text/plain''"
    by (simp_all add: isBinary_def isPageHtml_def substring_first_100 toLowerCase_def
          toLowerChar_def)
  have page: "render_view (paginate ''0123456789'' 0 4) = ''0123'' @ [newline, newline]
      @ ''<e>Content truncated (40% shown). Call the fetch tool with start_index=4 to get more content.</e>''"
    by (simp add: paginate_in_range percentShown_examples digits_40 digits_4)
  from call_fetch_result_shape [of "network_responds 200 ''text/plain'' ''0123456789''"
      "''http://example.com/''" 10000 2 "\<lambda>html. html" 4 0 False]
  obtain pageRaw contentType where
    "snd (fetch_url (network_responds 200 ''text/plain'' ''0123456789'')
        ''http://example.com/'' USER_AGENT 10000 2) = Some (pageRaw, contentType)"
    and shape: "snd (call_fetch (network_responds 200 ''text/plain'' ''0123456789'') (\<lambda>html. html)
          ''http://example.com/'' 4 0 False 10000 2) =
        [TextBlock
          (if pageRaw = [] then ''Failed to get page text''
           else if isBinary contentType \<and> \<not> False then
             ''<e>This URL contains binary content ('' @ contentType
               @ '') which cannot be displayed as text. Use raw=true to get the binary data.</e>''
           else
             let content = (if isPageHtml pageRaw contentType \<and> \<not> False
                            then (\<lambda>html. html) pageRaw else pageRaw)
             in ''Content-Type: '' @ contentType @ [newline]
                  @ ''Content size: '' @ number_to_string (int (length content)) @ '' characters''
                  @ [newline] @ ''Contents of '' @ ''http://example.com/'' @ '':'' @ [newline, newline]
                  @ render_view (paginate content 0 4))]"
    by blast
  with fetched have "pageRaw = ''0123456789''" "contentType = ''text/plain''" by simp_all
  with shape plain page show ?thesis by (simp add: digits_10)
qed

end
